theory Spec2Isabelle
  imports Main "HOL-Library.Word"
begin

section \<open>Message envelope model\<close>

text \<open>
  The declarations of types.ts are not among the sources; the shapes below are the fields
  that client.ts reads and writes. A value of TypeScript type \<open>unknown\<close> (a statement
  parameter, a row, a callback argument) is the type parameter \<open>'v\<close>, the payload of an
  \<open>info\<close> reply (\<open>DatabaseInfo\<close>) is the type parameter \<open>'i\<close>.
\<close>

type_synonym QueryKey = string

text \<open>
  What JavaScript can throw or reject with: an \<open>Error\<close> object with its message
  (\<open>new Error(...)\<close>), the engine's \<open>TypeError\<close> for a property read on
  \<open>undefined\<close>, the \<open>DataCloneError\<close> of a \<open>postMessage\<close> whose transfer list holds
  an object that cannot be transferred, or any other value.
\<close>

datatype 'v thrown = Error string | TypeError | DataCloneError | Opaque 'v

record 'v RawResultData =
  rows :: "'v list"
  columns :: "string list"

record 'v Statement =
  statement_sql :: string
  statement_params :: "'v list"

datatype FunctionType = Callback | Scalar

datatype 'v InputMessage =
    ConfigMessage string string
  | QueryMessage string "'v list" string
  | BatchMessage "'v Statement list"
  | DestroyMessage
  | FunctionMessage string FunctionType
  | ImportMessage "8 word list"
  | GetInfoMessage

text \<open>
  The database of an \<open>import\<close> message is the bytes of an ArrayBuffer, which
  \<open>postMessage\<close> can transfer; an import of a Uint8Array is never posted (see
  overwriteDatabaseFile below).

  One call of \<open>worker.postMessage\<close>: the message object, its \<open>queryKey\<close> property
  (\<open>None\<close> when the object has none) and the transfer list.
\<close>

record 'v Envelope =
  env_message :: "'v InputMessage"
  env_queryKey :: "QueryKey option"
  env_transfer :: "8 word list list"

datatype ('v, 'i) OutputMessage =
    SuccessMessage "QueryKey option"
  | DataMessage "QueryKey option" "'v RawResultData list"
  | ErrorMessage "QueryKey option" "'v thrown"
  | InfoMessage "QueryKey option" 'i
  | CallbackMessage string "'v list option"

fun message_queryKey :: "('v, 'i) OutputMessage \<Rightarrow> QueryKey option" where
  "message_queryKey (SuccessMessage k) = k"
| "message_queryKey (DataMessage k d) = k"
| "message_queryKey (ErrorMessage k e) = k"
| "message_queryKey (InfoMessage k i) = k"
| "message_queryKey (CallbackMessage n a) = None"

fun is_callback :: "('v, 'i) OutputMessage \<Rightarrow> bool" where
  "is_callback (CallbackMessage n a) = True"
| "is_callback m = False"

fun is_error :: "('v, 'i) OutputMessage \<Rightarrow> bool" where
  "is_error (ErrorMessage k e) = True"
| "is_error m = False"

fun is_config :: "'v InputMessage \<Rightarrow> bool" where
  "is_config (ConfigMessage k v) = True"
| "is_config m = False"

section \<open>Promises and continuations\<close>

text \<open>
  A promise is a slot of the promise store: \<open>None\<close> while pending, then settled once.
  The two functions that \<open>new Promise\<close> hands to its executor settle the slot and do
  nothing on a promise that is settled already.
\<close>

datatype ('v, 'i) Settlement = Fulfilled "('v, 'i) OutputMessage" | Rejected "'v thrown"

type_synonym ('v, 'i) promise_store = "('v, 'i) Settlement option list"

type_synonym ('v, 'i) resolve_fn =
  "('v, 'i) OutputMessage \<Rightarrow> ('v, 'i) promise_store \<Rightarrow> ('v, 'i) promise_store"

type_synonym ('v, 'i) reject_fn =
  "'v thrown \<Rightarrow> ('v, 'i) promise_store \<Rightarrow> ('v, 'i) promise_store"

definition settle ::
  "nat \<Rightarrow> ('v, 'i) Settlement \<Rightarrow> ('v, 'i) promise_store \<Rightarrow> ('v, 'i) promise_store" where
  "settle p r ps = (if p < length ps \<and> ps ! p = None then ps[p := Some r] else ps)"

definition resolve_promise :: "nat \<Rightarrow> ('v, 'i) resolve_fn" where
  "resolve_promise p m = settle p (Fulfilled m)"

definition reject_promise :: "nat \<Rightarrow> ('v, 'i) reject_fn" where
  "reject_promise p e = settle p (Rejected e)"

definition settled :: "nat \<Rightarrow> ('v, 'i) promise_store \<Rightarrow> ('v, 'i) Settlement option" where
  "settled p ps = (if p < length ps then ps ! p else None)"

text \<open>
  A user callback runs on the application's own state \<open>'u\<close>; it returns a value or throws.
  A callback that calls the client's own methods from inside the listener is not
  modelled.
\<close>

type_synonym ('v, 'u) CallbackUserFunction = "'v list \<Rightarrow> 'u \<Rightarrow> ('v thrown + 'v) \<times> 'u"

section \<open>The client\<close>

text \<open>
  The fields of class SQLocal, and what its methods reach outside it: the messages posted
  to the worker in order, whether the message listener is attached, whether the worker
  was terminated, the properties set on the worker proxy, the promise store and the
  application's state.
\<close>

record ('v, 'i, 'u) SQLocal =
  databasePath :: string
  isWorkerDestroyed :: bool
  userCallbacks :: "string \<rightharpoonup> ('v, 'u) CallbackUserFunction"
  queriesInProgress :: "QueryKey \<rightharpoonup> (('v, 'i) resolve_fn \<times> ('v, 'i) reject_fn)"
  proxy :: "string \<rightharpoonup> ('v list \<Rightarrow> 'v)"
  posted :: "'v Envelope list"
  listening :: bool
  terminated :: bool
  promise_store :: "('v, 'i) promise_store"
  world :: 'u

definition postMessage ::
  "'v Envelope \<Rightarrow> ('v, 'i, 'u) SQLocal \<Rightarrow> ('v, 'i, 'u) SQLocal" where
  "postMessage e s = s\<lparr>posted := posted s @ [e]\<rparr>"

definition constructor :: "string \<Rightarrow> 'u \<Rightarrow> ('v, 'i, 'u) SQLocal" where
  "constructor path u =
     postMessage
       \<lparr>env_message = ConfigMessage ''databasePath'' path, env_queryKey = None,
        env_transfer = []\<rparr>
       \<lparr>databasePath = path, isWorkerDestroyed = False, userCallbacks = Map.empty,
        queriesInProgress = Map.empty, proxy = Map.empty, posted = [], listening = True,
        terminated = False, promise_store = [], world = u\<rparr>"

subsection \<open>processMessageEvent\<close>

text \<open>
  \<open>message.queryKey && queries.has(message.queryKey)\<close>: the key is looked up only when it
  is truthy, that is present and not the empty string. The result is the entry found.
\<close>

definition lookup_pending ::
  "QueryKey option \<Rightarrow> (QueryKey \<rightharpoonup> 'c) \<Rightarrow> (QueryKey \<times> 'c) option" where
  "lookup_pending key queries =
     (case key of
        None \<Rightarrow> None
      | Some k \<Rightarrow> if k = [] then None else map_option (Pair k) (queries k))"

text \<open>
  The handler returns the value it throws, if any, and the state it leaves.
\<close>

definition processMessageEvent ::
  "('v, 'i) OutputMessage \<Rightarrow> ('v, 'i, 'u) SQLocal \<Rightarrow> 'v thrown option \<times> ('v, 'i, 'u) SQLocal" where
  "processMessageEvent message s =
     (let queries = queriesInProgress s in
      case message of
        CallbackMessage name args \<Rightarrow>
          (case userCallbacks s name of
             Some userCallback \<Rightarrow>
               (case userCallback (case args of Some a \<Rightarrow> a | None \<Rightarrow> []) (world s) of
                  (Inl e, u) \<Rightarrow> (Some e, s\<lparr>world := u\<rparr>)
                | (Inr r, u) \<Rightarrow> (None, s\<lparr>world := u\<rparr>))
           | None \<Rightarrow> (None, s))
      | _ \<Rightarrow>
          (case lookup_pending (message_queryKey message) queries of
             Some (k, resolve, reject) \<Rightarrow>
               (let store =
                      (case message of
                         ErrorMessage _ e \<Rightarrow> reject e (promise_store s)
                       | _ \<Rightarrow> resolve message (promise_store s))
                in (None, s\<lparr>promise_store := store, queriesInProgress := queries(k := None)\<rparr>))
           | None \<Rightarrow>
               (case message of
                  ErrorMessage _ e \<Rightarrow> (Some e, s)
                | _ \<Rightarrow> (None, s))))"

subsection \<open>createQuery\<close>

definition destroyed_text :: string where
  "destroyed_text =
     ''This SQLocal client has been destroyed. You will need to initialize a new client in order to make further queries.''"

text \<open>
  \<open>queryKey\<close> is the string that this call's \<open>nanoid()\<close> returns. The result is the value
  thrown, or the number of the promise returned, with the state the call leaves.
\<close>

definition createQuery ::
  "'v InputMessage \<Rightarrow> QueryKey \<Rightarrow> ('v, 'i, 'u) SQLocal \<Rightarrow>
     ('v thrown + nat) \<times> ('v, 'i, 'u) SQLocal" where
  "createQuery message queryKey s =
     (if isWorkerDestroyed s then (Inl (Error destroyed_text), s)
      else
        let s1 =
              (case message of
                 ImportMessage database \<Rightarrow>
                   postMessage
                     \<lparr>env_message = message, env_queryKey = Some queryKey,
                      env_transfer = [database]\<rparr> s
               | _ \<Rightarrow>
                   postMessage
                     \<lparr>env_message = message, env_queryKey = Some queryKey,
                      env_transfer = []\<rparr> s);
            p = length (promise_store s1)
        in (Inr p,
            s1\<lparr>promise_store := promise_store s1 @ [None],
               queriesInProgress :=
                 (queriesInProgress s1)(queryKey \<mapsto> (resolve_promise p, reject_promise p))\<rparr>))"

subsection \<open>The code after each await\<close>

text \<open>
  An async method that calls \<open>createQuery\<close> awaits the promise it returns.
  \<open>f_resume\<close> is the code of method \<open>f\<close> after that \<open>await\<close>, applied to the settlement
  of the awaited promise and, where the method writes fields afterwards, to the state at
  that later moment. An \<open>await\<close> on a rejected promise throws the rejection value.
\<close>

text \<open>
  \<open>message.data[0]\<close> of an empty array is \<open>undefined\<close>, and reading \<open>.rows\<close> of it
  throws a TypeError.
\<close>

definition exec_resume :: "('v, 'i) Settlement \<Rightarrow> 'v thrown + 'v RawResultData" where
  "exec_resume r =
     (case r of
        Rejected e \<Rightarrow> Inl e
      | Fulfilled message \<Rightarrow>
          (let data = \<lparr>rows = [], columns = []\<rparr> in
           case message of
             DataMessage _ results \<Rightarrow>
               (case results of
                  [] \<Rightarrow> Inl TypeError
                | first # _ \<Rightarrow> Inr (data\<lparr>rows := rows first, columns := columns first\<rparr>))
           | _ \<Rightarrow> Inr data))"

text \<open>
  A JavaScript array is a list of slots, \<open>None\<close> an empty slot. An assignment past the
  end extends the array, leaving empty slots in between.
\<close>

type_synonym 'a js_array = "'a option list"

definition new_Array :: "nat \<Rightarrow> 'a js_array" where
  "new_Array n = replicate n None"

definition array_fill :: "'a \<Rightarrow> 'a js_array \<Rightarrow> 'a js_array" where
  "array_fill v xs = map (\<lambda>_. Some v) xs"

definition array_set :: "'a js_array \<Rightarrow> nat \<Rightarrow> 'a \<Rightarrow> 'a js_array" where
  "array_set xs i v =
     (if i < length xs then xs[i := Some v]
      else xs @ replicate (i - length xs) None @ [Some v])"

fun forEach_from :: "nat \<Rightarrow> 'a list \<Rightarrow> ('a \<Rightarrow> nat \<Rightarrow> 's \<Rightarrow> 's) \<Rightarrow> 's \<Rightarrow> 's" where
  "forEach_from i [] f s = s"
| "forEach_from i (x # xs) f s = forEach_from (Suc i) xs f (f x i s)"

definition forEach :: "'a list \<Rightarrow> ('a \<Rightarrow> nat \<Rightarrow> 's \<Rightarrow> 's) \<Rightarrow> 's \<Rightarrow> 's" where
  "forEach xs f s = forEach_from 0 xs f s"

definition execBatch_resume ::
  "'v Statement list \<Rightarrow> ('v, 'i) Settlement \<Rightarrow> 'v thrown + 'v RawResultData js_array" where
  "execBatch_resume statements r =
     (case r of
        Rejected e \<Rightarrow> Inl e
      | Fulfilled message \<Rightarrow>
          (let data = array_fill \<lparr>rows = [], columns = []\<rparr> (new_Array (length statements)) in
           case message of
             DataMessage _ results \<Rightarrow>
               Inr (forEach results (\<lambda>result resultIndex d. array_set d resultIndex result) data)
           | _ \<Rightarrow> Inr data))"

definition createCallbackFunction_resume ::
  "string \<Rightarrow> ('v, 'u) CallbackUserFunction \<Rightarrow> ('v, 'i) Settlement \<Rightarrow> ('v, 'i, 'u) SQLocal \<Rightarrow>
     ('v thrown + unit) \<times> ('v, 'i, 'u) SQLocal" where
  "createCallbackFunction_resume funcName func r s =
     (case r of
        Rejected e \<Rightarrow> (Inl e, s)
      | Fulfilled _ \<Rightarrow> (Inr (), s\<lparr>userCallbacks := (userCallbacks s)(funcName \<mapsto> func)\<rparr>))"

definition createScalarFunction_resume ::
  "string \<Rightarrow> ('v list \<Rightarrow> 'v) \<Rightarrow> ('v, 'i) Settlement \<Rightarrow> ('v, 'i, 'u) SQLocal \<Rightarrow>
     ('v thrown + unit) \<times> ('v, 'i, 'u) SQLocal" where
  "createScalarFunction_resume funcName func r s =
     (case r of
        Rejected e \<Rightarrow> (Inl e, s)
      | Fulfilled _ \<Rightarrow>
          (Inr (), s\<lparr>proxy := (proxy s)(''_sqlocal_func_'' @ funcName \<mapsto> func)\<rparr>))"



definition destroy_resume ::
  "('v, 'i) Settlement \<Rightarrow> ('v, 'i, 'u) SQLocal \<Rightarrow> ('v thrown + unit) \<times> ('v, 'i, 'u) SQLocal" where
  "destroy_resume r s =
     (case r of
        Rejected e \<Rightarrow> (Inl e, s)
      | Fulfilled _ \<Rightarrow>
          (Inr (),
           s\<lparr>listening := False, queriesInProgress := Map.empty, userCallbacks := Map.empty,
             terminated := True, isWorkerDestroyed := True\<rparr>))"

subsection \<open>What happens while a method waits\<close>

text \<open>
  While one method waits for its reply the client goes on: a message of the worker
  reaches the listener (if it is still attached), another method calls \<open>createQuery\<close>,
  or another call of a method that writes fields after its \<open>await\<close> resumes. A value
  that the listener throws goes to the host's error reporting; the client goes on in the
  state the listener left.
\<close>

datatype ('v, 'i, 'u) Event =
    Received "('v, 'i) OutputMessage"
  | Called "'v InputMessage" QueryKey
  | CallbackResumed string "('v, 'u) CallbackUserFunction" "('v, 'i) Settlement"
  | ScalarResumed string "'v list \<Rightarrow> 'v" "('v, 'i) Settlement"
  | DestroyResumed "('v, 'i) Settlement"

fun step :: "('v, 'i, 'u) Event \<Rightarrow> ('v, 'i, 'u) SQLocal \<Rightarrow> ('v, 'i, 'u) SQLocal" where
  "step (Received message) s = (if listening s then snd (processMessageEvent message s) else s)"
| "step (Called message queryKey) s = snd (createQuery message queryKey s)"
| "step (CallbackResumed funcName func r) s = snd (createCallbackFunction_resume funcName func r s)"
| "step (ScalarResumed funcName func r) s = snd (createScalarFunction_resume funcName func r s)"
| "step (DestroyResumed r) s = snd (destroy_resume r s)"

fun steps :: "('v, 'i, 'u) Event list \<Rightarrow> ('v, 'i, 'u) SQLocal \<Rightarrow> ('v, 'i, 'u) SQLocal" where
  "steps [] s = s"
| "steps (e # es) s = steps es (step e s)"

text \<open>
  \<open>await\<close> on promise \<open>p\<close>: the events go by until the promise is settled. The result is
  its settlement, or \<open>None\<close> when the events end and it is pending still, with the state
  at that moment.
\<close>

fun await ::
  "nat \<Rightarrow> ('v, 'i, 'u) Event list \<Rightarrow> ('v, 'i, 'u) SQLocal \<Rightarrow>
     ('v, 'i) Settlement option \<times> ('v, 'i, 'u) SQLocal" where
  "await p [] s = (settled p (promise_store s), s)"
| "await p (e # es) s =
     (case settled p (promise_store s) of
        Some r \<Rightarrow> (Some r, s)
      | None \<Rightarrow> await p es (step e s))"

text \<open>
  An async method: the call of \<open>createQuery\<close> (a value thrown there rejects the method's
  promise at once), the wait, and the code after it. The result is \<open>None\<close> while the
  method's promise is pending, \<open>Some (Inl e)\<close> once it is rejected with \<open>e\<close> and
  \<open>Some (Inr x)\<close> once it is fulfilled with \<open>x\<close>.
\<close>

definition awaiting ::
  "('v thrown + nat) \<times> ('v, 'i, 'u) SQLocal \<Rightarrow> ('v, 'i, 'u) Event list \<Rightarrow>
   (('v, 'i) Settlement \<Rightarrow> ('v, 'i, 'u) SQLocal \<Rightarrow> ('v thrown + 'a) \<times> ('v, 'i, 'u) SQLocal) \<Rightarrow>
     ('v thrown + 'a) option \<times> ('v, 'i, 'u) SQLocal" where
  "awaiting call events resume =
     (case call of
        (Inl e, s) \<Rightarrow> (Some (Inl e), s)
      | (Inr p, s) \<Rightarrow>
          (case await p events s of
             (None, s') \<Rightarrow> (None, s')
           | (Some r, s') \<Rightarrow> (case resume r s' of (result, s'') \<Rightarrow> (Some result, s''))))"

subsection \<open>The methods\<close>

text \<open>
  Each method takes the key its \<open>nanoid()\<close> returns and the events that go by while it
  waits.
\<close>

definition exec ::
  "string \<Rightarrow> 'v list \<Rightarrow> string \<Rightarrow> QueryKey \<Rightarrow> ('v, 'i, 'u) Event list \<Rightarrow> ('v, 'i, 'u) SQLocal \<Rightarrow>
     ('v thrown + 'v RawResultData) option \<times> ('v, 'i, 'u) SQLocal" where
  "exec text ps method queryKey events s =
     awaiting (createQuery (QueryMessage text ps method) queryKey s) events
       (\<lambda>r s'. (exec_resume r, s'))"

definition execBatch ::
  "'v Statement list \<Rightarrow> QueryKey \<Rightarrow> ('v, 'i, 'u) Event list \<Rightarrow> ('v, 'i, 'u) SQLocal \<Rightarrow>
     ('v thrown + 'v RawResultData js_array) option \<times> ('v, 'i, 'u) SQLocal" where
  "execBatch statements queryKey events s =
     awaiting (createQuery (BatchMessage statements) queryKey s) events
       (\<lambda>r s'. (execBatch_resume statements r, s'))"






definition createCallbackFunction ::
  "string \<Rightarrow> ('v, 'u) CallbackUserFunction \<Rightarrow> QueryKey \<Rightarrow> ('v, 'i, 'u) Event list \<Rightarrow>
   ('v, 'i, 'u) SQLocal \<Rightarrow> ('v thrown + unit) option \<times> ('v, 'i, 'u) SQLocal" where
  "createCallbackFunction funcName func queryKey events s =
     awaiting (createQuery (FunctionMessage funcName Callback) queryKey s) events
       (createCallbackFunction_resume funcName func)"









definition destroy ::
  "QueryKey \<Rightarrow> ('v, 'i, 'u) Event list \<Rightarrow> ('v, 'i, 'u) SQLocal \<Rightarrow>
     ('v thrown + unit) option \<times> ('v, 'i, 'u) SQLocal" where
  "destroy queryKey events s = awaiting (createQuery DestroyMessage queryKey s) events destroy_resume"

subsection \<open>The public operations\<close>






subsection \<open>The states a client goes through\<close>

text \<open>
  A client starts in the state its constructor leaves, and goes on by the events above.
  \<open>createQuery\<close> is called with a request of its parameter type, which has every
  variant but \<open>config\<close>, and \<open>nanoid()\<close> returns a non-empty string.
\<close>

fun possible :: "('v, 'i, 'u) Event \<Rightarrow> bool" where
  "possible (Called message queryKey) = (queryKey \<noteq> [] \<and> \<not> is_config message)"
| "possible e = True"

inductive reachable :: "('v, 'i, 'u) SQLocal \<Rightarrow> bool" where
  created: "reachable (constructor path u)"
| stepped: "reachable s \<Longrightarrow> possible e \<Longrightarrow> reachable (step e s)"

text \<open>
  Whether an event decides the request pending under a key, or takes it off the
  registry: a reply with that key, another \<open>createQuery\<close> with the same key, and the
  \<open>clear()\<close> of a \<open>destroy\<close> that resumes.
\<close>

fun concerns :: "QueryKey \<Rightarrow> ('v, 'i, 'u) Event \<Rightarrow> bool" where
  "concerns k (Received message) = (message_queryKey message = Some k)"
| "concerns k (Called message queryKey) = (queryKey = k)"
| "concerns k (DestroyResumed (Fulfilled message)) = True"
| "concerns k e = False"

text \<open>
  The settlement that a reply gives the promise of its request.
\<close>

fun settlement_of :: "('v, 'i) OutputMessage \<Rightarrow> ('v, 'i) Settlement" where
  "settlement_of (ErrorMessage k e) = Rejected e"
| "settlement_of message = Fulfilled message"

text \<open>
  Every pending entry holds the two continuations of a promise that is pending, and no
  two entries hold those of the same promise.
\<close>

definition registry_wf :: "('v, 'i, 'u) SQLocal \<Rightarrow> bool" where
  "registry_wf s \<longleftrightarrow>
     (\<forall>k c. queriesInProgress s k = Some c \<longrightarrow>
        (\<exists>p. p < length (promise_store s) \<and> promise_store s ! p = None \<and>
             c = (resolve_promise p, reject_promise p) \<and>
             (\<forall>k'. queriesInProgress s k' = Some c \<longrightarrow> k' = k)))"

subsection \<open>Example states\<close>

text \<open>
  A client with two requests in flight, under the keys \<open>k1\<close> and \<open>k2\<close>.
\<close>

definition two_pending :: "(nat, nat, unit) SQLocal" where
  "two_pending =
     steps [Called (QueryMessage ''SELECT 1'' [] ''all'') ''k1'',
            Called (QueryMessage ''SELECT 2'' [] ''all'') ''k2'']
       (constructor ''db.sqlite3'' ())"

text \<open>
  A client whose \<open>destroy()\<close> has resolved: the request went out under \<open>k1\<close> and the
  worker acknowledged it.
\<close>

definition destroyed_client :: "(nat, nat, unit) SQLocal" where
  "destroyed_client =
     snd (destroy ''k1'' [Received (SuccessMessage (Some ''k1''))] (constructor ''db.sqlite3'' ()))"



text \<open>
  A user callback that keeps the arguments it was called with, and a client that has
  registered it under the name \<open>notify\<close>.
\<close>

definition notify :: "(nat, nat list) CallbackUserFunction" where
  "notify args u = (Inr (length args), args @ u)"

definition with_callback :: "(nat, nat, nat list) SQLocal" where
  "with_callback =
     snd (createCallbackFunction ''notify'' notify ''k1'' [Received (SuccessMessage (Some ''k1''))]
       (constructor ''db.sqlite3'' []))"

section \<open>Properties\<close>

subsection \<open>createQuery and the handler, case by case\<close>

lemma createQuery_destroyed:
  "isWorkerDestroyed s \<Longrightarrow> createQuery m k s = (Inl (Error destroyed_text), s)"
  by (simp add: createQuery_def)

lemma createQuery_active:
  "\<not> isWorkerDestroyed s \<Longrightarrow>
   createQuery m k s =
     (Inr (length (promise_store s)),
      s\<lparr>posted := posted s @
           [\<lparr>env_message = m, env_queryKey = Some k,
             env_transfer = (case m of ImportMessage database \<Rightarrow> [database] | _ \<Rightarrow> [])\<rparr>],
        promise_store := promise_store s @ [None],
        queriesInProgress :=
          (queriesInProgress s)(k \<mapsto> (resolve_promise (length (promise_store s)),
                                      reject_promise (length (promise_store s))))\<rparr>)"
  by (cases m) (simp_all add: createQuery_def postMessage_def Let_def)

lemma lookup_pending_Some:
  "k \<noteq> [] \<Longrightarrow> q k = Some c \<Longrightarrow> lookup_pending (Some k) q = Some (k, c)"
  by (simp add: lookup_pending_def)

lemma lookup_pending_None:
  "(\<forall>k. key = Some k \<longrightarrow> q k = None) \<Longrightarrow> lookup_pending key q = None"
  by (cases key) (simp_all add: lookup_pending_def)

lemma lookup_pending_cases:
  "lookup_pending key q = None \<or> (\<exists>k c. key = Some k \<and> k \<noteq> [] \<and> q k = Some c \<and> lookup_pending key q = Some (k, c))"
  by (cases key) (auto simp add: lookup_pending_def)

lemma processMessageEvent_matched:
  assumes "\<not> is_callback m" and "message_queryKey m = Some k" and "k \<noteq> []"
    and "queriesInProgress s k = Some (res, rej)"
  shows "processMessageEvent m s =
           (None,
            s\<lparr>promise_store :=
                 (case m of
                    ErrorMessage _ e \<Rightarrow> rej e (promise_store s)
                  | _ \<Rightarrow> res m (promise_store s)),
              queriesInProgress := (queriesInProgress s)(k := None)\<rparr>)"
  using assms
  by (cases m) (simp_all add: processMessageEvent_def lookup_pending_Some)

lemma processMessageEvent_callback:
  "processMessageEvent (CallbackMessage name args) s =
     (case userCallbacks s name of
        None \<Rightarrow> (None, s)
      | Some userCallback \<Rightarrow>
          ((case fst (userCallback (case args of Some a \<Rightarrow> a | None \<Rightarrow> []) (world s)) of
              Inl e \<Rightarrow> Some e
            | Inr r \<Rightarrow> None),
           s\<lparr>world := snd (userCallback (case args of Some a \<Rightarrow> a | None \<Rightarrow> []) (world s))\<rparr>))"
  by (simp add: processMessageEvent_def split: option.splits prod.splits sum.splits)

text \<open>
  What the handler does to the registry and the promise store, in every case: nothing,
  or it settles with one entry's continuation and deletes that entry.
\<close>

lemma processMessageEvent_effect:
  "(queriesInProgress (snd (processMessageEvent m s)) = queriesInProgress s \<and>
    promise_store (snd (processMessageEvent m s)) = promise_store s) \<or>
   (\<exists>k res rej. message_queryKey m = Some k \<and> k \<noteq> [] \<and> \<not> is_callback m \<and>
       queriesInProgress s k = Some (res, rej) \<and>
       queriesInProgress (snd (processMessageEvent m s)) = (queriesInProgress s)(k := None) \<and>
       promise_store (snd (processMessageEvent m s)) =
         (case m of
            ErrorMessage _ e \<Rightarrow> rej e (promise_store s)
          | _ \<Rightarrow> res m (promise_store s)))"
proof (cases "is_callback m")
  case True
  then obtain name args where "m = CallbackMessage name args"
    by (cases m) simp_all
  then show ?thesis
    by (simp add: processMessageEvent_callback split: option.splits)
next
  case False
  show ?thesis
  proof (cases "\<exists>k. message_queryKey m = Some k \<and> k \<noteq> [] \<and> queriesInProgress s k \<noteq> None")
    case True
    then obtain k res rej where "message_queryKey m = Some k" "k \<noteq> []"
      "queriesInProgress s k = Some (res, rej)" by auto
    with False show ?thesis
      by (auto simp add: processMessageEvent_matched)
  next
    case no: False
    have "lookup_pending (message_queryKey m) (queriesInProgress s) = None"
      using no lookup_pending_cases [of "message_queryKey m" "queriesInProgress s"] by auto
    with False show ?thesis
      by (cases m) (simp_all add: processMessageEvent_def)
  qed
qed

lemma processMessageEvent_frame:
  "posted (snd (processMessageEvent m s)) = posted s \<and>
   listening (snd (processMessageEvent m s)) = listening s \<and>
   isWorkerDestroyed (snd (processMessageEvent m s)) = isWorkerDestroyed s \<and>
   userCallbacks (snd (processMessageEvent m s)) = userCallbacks s \<and>
   terminated (snd (processMessageEvent m s)) = terminated s"
  by (cases m)
    (auto simp add: processMessageEvent_def Let_def split: option.splits prod.splits sum.splits)

subsection \<open>Every pending entry belongs to a pending promise of its own\<close>

lemma settle_pending:
  "p < length ps \<Longrightarrow> ps ! p = None \<Longrightarrow> settle p r ps = ps[p := Some r]"
  by (simp add: settle_def)

lemma resolve_promise_inj:
  assumes "(resolve_promise p :: ('v, 'i) resolve_fn) = resolve_promise q"
  shows "p = q"
proof -
  define ps :: "('v, 'i) promise_store" where "ps = replicate (p + q + 1) None"
  define r :: "('v, 'i) Settlement" where "r = Fulfilled (SuccessMessage None)"
  have len: "p < length ps" "q < length ps"
    by (simp_all add: ps_def)
  have "i < length ps \<Longrightarrow> ps ! i = None" for i
    unfolding ps_def by (simp only: length_replicate nth_replicate)
  with len have none: "ps ! p = None" "ps ! q = None"
    by simp_all
  have "resolve_promise p (SuccessMessage None) ps = resolve_promise q (SuccessMessage None) ps"
    using assms by simp
  then have "ps[p := Some r] = ps[q := Some r]"
    using len none by (simp add: resolve_promise_def settle_pending r_def)
  then have "ps[p := Some r] ! p = ps[q := Some r] ! p"
    by simp
  then show ?thesis
    using len none by (cases "p = q") simp_all
qed

lemma registry_wf_unfold:
  assumes "registry_wf s" and "queriesInProgress s k = Some c"
  shows "\<exists>p. p < length (promise_store s) \<and> promise_store s ! p = None \<and>
             c = (resolve_promise p, reject_promise p) \<and>
             (\<forall>k'. queriesInProgress s k' = Some c \<longrightarrow> k' = k)"
proof -
  from assms(1) have "queriesInProgress s k = Some c \<longrightarrow>
        (\<exists>p. p < length (promise_store s) \<and> promise_store s ! p = None \<and>
             c = (resolve_promise p, reject_promise p) \<and>
             (\<forall>k'. queriesInProgress s k' = Some c \<longrightarrow> k' = k))"
    unfolding registry_wf_def by (elim allE)
  with assms(2) show ?thesis by (elim impE)
qed

lemma registry_wf_entry:
  fixes s :: "('v, 'i, 'u) SQLocal"
  assumes "registry_wf s" and "queriesInProgress s k = Some (resolve_promise p, reject_promise p)"
  shows "p < length (promise_store s) \<and> promise_store s ! p = None"
proof -
  obtain q where q: "q < length (promise_store s)" "promise_store s ! q = None"
    and eq: "queriesInProgress s k = Some (resolve_promise q, reject_promise q)"
    using registry_wf_unfold [OF assms] assms(2) by auto
  from eq assms(2) have "(resolve_promise p :: ('v, 'i) resolve_fn) = resolve_promise q"
    by simp
  then have "p = q" by (rule resolve_promise_inj)
  with q show ?thesis by simp
qed

lemma registry_wf_constructor: "registry_wf (constructor path u)"
  by (simp add: registry_wf_def constructor_def postMessage_def)

lemma registry_wf_createQuery:
  fixes s :: "('v, 'i, 'u) SQLocal"
  assumes "registry_wf s"
  shows "registry_wf (snd (createQuery m k s))"
proof (cases "isWorkerDestroyed s")
  case True
  with assms show ?thesis by (simp add: createQuery_destroyed)
next
  case False
  let ?n = "length (promise_store s)"
  let ?new = "(resolve_promise ?n, reject_promise ?n) :: ('v, 'i) resolve_fn \<times> ('v, 'i) reject_fn"
  have old: "queriesInProgress s k' \<noteq> Some ?new" for k'
  proof
    assume "queriesInProgress s k' = Some ?new"
    with assms have "?n < length (promise_store s)"
      by (rule registry_wf_entry [THEN conjunct1])
    then show False by simp
  qed
  show ?thesis
    unfolding registry_wf_def
  proof (intro allI impI)
    fix k' c
    assume c: "queriesInProgress (snd (createQuery m k s)) k' = Some c"
    show "\<exists>p. p < length (promise_store (snd (createQuery m k s))) \<and>
              promise_store (snd (createQuery m k s)) ! p = None \<and>
              c = (resolve_promise p, reject_promise p) \<and>
              (\<forall>k''. queriesInProgress (snd (createQuery m k s)) k'' = Some c \<longrightarrow> k'' = k')"
    proof (cases "k' = k")
      case True
      with c False have "c = ?new" by (simp add: createQuery_active)
      with False True old show ?thesis
        by (intro exI [of _ ?n]) (auto simp add: createQuery_active)
    next
      case other: False
      with c False have c': "queriesInProgress s k' = Some c" by (simp add: createQuery_active)
      obtain p where p: "p < length (promise_store s)" "promise_store s ! p = None"
        "c = (resolve_promise p, reject_promise p)"
        "\<forall>k''. queriesInProgress s k'' = Some c \<longrightarrow> k'' = k'"
        using registry_wf_unfold [OF assms c'] by (elim exE conjE) blast
      have "c \<noteq> ?new" using old [of k'] c' by auto
      with p False show ?thesis
        by (intro exI [of _ p]) (auto simp add: createQuery_active nth_append)
    qed
  qed
qed

lemma registry_wf_processMessageEvent:
  assumes "registry_wf s"
  shows "registry_wf (snd (processMessageEvent m s))"
proof -
  let ?s' = "snd (processMessageEvent m s)"
  consider
    (same) "queriesInProgress ?s' = queriesInProgress s" "promise_store ?s' = promise_store s"
  | (matched) k res rej where "message_queryKey m = Some k" "\<not> is_callback m"
      "queriesInProgress s k = Some (res, rej)"
      "queriesInProgress ?s' = (queriesInProgress s)(k := None)"
      "promise_store ?s' =
         (case m of ErrorMessage _ e \<Rightarrow> rej e (promise_store s) | _ \<Rightarrow> res m (promise_store s))"
    using processMessageEvent_effect [of m s] by blast
  then show ?thesis
  proof cases
    case same
    with assms show ?thesis by (simp add: registry_wf_def)
  next
    case matched
    obtain p where p: "p < length (promise_store s)"
      "promise_store s ! p = None" "(res, rej) = (resolve_promise p, reject_promise p)"
      "\<forall>k'. queriesInProgress s k' = Some (res, rej) \<longrightarrow> k' = k"
      using registry_wf_unfold [OF assms matched(3)] by (elim exE conjE) blast
    have store: "promise_store ?s' = (promise_store s)[p := Some (settlement_of m)]"
      using matched(2,5) p(1,2,3)
      by (cases m) (simp_all add: resolve_promise_def reject_promise_def settle_pending)
    show ?thesis
      unfolding registry_wf_def
    proof (intro allI impI)
      fix k' c
      assume "queriesInProgress ?s' k' = Some c"
      with matched(4) have k': "k' \<noteq> k" and c: "queriesInProgress s k' = Some c"
        by (auto split: if_splits)
      obtain q where q: "q < length (promise_store s)" "promise_store s ! q = None"
        "c = (resolve_promise q, reject_promise q)"
        "\<forall>k''. queriesInProgress s k'' = Some c \<longrightarrow> k'' = k'"
        using registry_wf_unfold [OF assms c] by (elim exE conjE) blast
      have "q \<noteq> p"
      proof
        assume "q = p"
        with q(3) p(3) have "c = (res, rej)" by simp
        with c p(4) have "k' = k" by simp
        with k' show False by simp
      qed
      with q show "\<exists>p. p < length (promise_store ?s') \<and> promise_store ?s' ! p = None \<and>
              c = (resolve_promise p, reject_promise p) \<and>
              (\<forall>k''. queriesInProgress ?s' k'' = Some c \<longrightarrow> k'' = k')"
        by (intro exI [of _ q]) (auto simp add: store matched(4) split: if_splits)
    qed
  qed
qed

lemma registry_wf_step:
  assumes "registry_wf s"
  shows "registry_wf (step e s)"
proof (cases e)
  case (Received m)
  with assms show ?thesis by (simp add: registry_wf_processMessageEvent)
next
  case (Called m k)
  with assms show ?thesis by (simp add: registry_wf_createQuery)
next
  case (CallbackResumed funcName func r)
  with assms show ?thesis
    by (cases r) (simp_all add: createCallbackFunction_resume_def registry_wf_def)
next
  case (ScalarResumed funcName func r)
  with assms show ?thesis
    by (cases r) (simp_all add: createScalarFunction_resume_def registry_wf_def)
next
  case (DestroyResumed r)
  with assms show ?thesis
    by (cases r) (simp_all add: destroy_resume_def registry_wf_def)
qed

lemma reachable_registry_wf: "reachable s \<Longrightarrow> registry_wf s"
  by (induction rule: reachable.induct) (simp_all add: registry_wf_constructor registry_wf_step)

subsection \<open>What holds in every state of a client\<close>

text \<open>
  No request is pending under the empty key, on which the handler's truthiness test would
  pass over the entry; the listener is attached exactly as long as the client is not
  destroyed; a posted message has no key exactly when it is a \<open>config\<close> message; and a
  destroyed client stays destroyed.
\<close>

lemma step_truthy_keys:
  assumes "queriesInProgress s [] = None" and "possible e"
  shows "queriesInProgress (step e s) [] = None"
proof (cases e)
  case (Received m)
  show ?thesis
    using assms(1) processMessageEvent_effect [of m s] unfolding Received by auto
next
  case (Called m k)
  with assms show ?thesis
    by (cases "isWorkerDestroyed s") (auto simp add: createQuery_destroyed createQuery_active)
next
  case (CallbackResumed funcName func r)
  with assms show ?thesis by (cases r) (simp_all add: createCallbackFunction_resume_def)
next
  case (ScalarResumed funcName func r)
  with assms show ?thesis by (cases r) (simp_all add: createScalarFunction_resume_def)
next
  case (DestroyResumed r)
  with assms show ?thesis by (cases r) (simp_all add: destroy_resume_def)
qed

lemma reachable_truthy_keys: "reachable s \<Longrightarrow> queriesInProgress s [] = None"
  by (induction rule: reachable.induct)
    (simp_all add: constructor_def postMessage_def step_truthy_keys)

lemma step_listening:
  assumes "listening s = (\<not> isWorkerDestroyed s)"
  shows "listening (step e s) = (\<not> isWorkerDestroyed (step e s))"
proof (cases e)
  case (Received m)
  with assms show ?thesis by (simp add: processMessageEvent_frame)
next
  case (Called m k)
  with assms show ?thesis
    by (cases "isWorkerDestroyed s") (simp_all add: createQuery_destroyed createQuery_active)
next
  case (CallbackResumed funcName func r)
  with assms show ?thesis by (cases r) (simp_all add: createCallbackFunction_resume_def)
next
  case (ScalarResumed funcName func r)
  with assms show ?thesis by (cases r) (simp_all add: createScalarFunction_resume_def)
next
  case (DestroyResumed r)
  with assms show ?thesis by (cases r) (simp_all add: destroy_resume_def)
qed

lemma reachable_listening: "reachable s \<Longrightarrow> listening s = (\<not> isWorkerDestroyed s)"
  by (induction rule: reachable.induct)
    (simp_all add: constructor_def postMessage_def step_listening)

lemma step_envelopes:
  assumes "\<forall>e \<in> set (posted s). (env_queryKey e = None) = is_config (env_message e)"
    and "possible ev"
  shows "\<forall>e \<in> set (posted (step ev s)). (env_queryKey e = None) = is_config (env_message e)"
proof (cases ev)
  case (Received m)
  with assms show ?thesis by (simp add: processMessageEvent_frame)
next
  case (Called m k)
  with assms show ?thesis
    by (cases "isWorkerDestroyed s") (simp_all add: createQuery_destroyed createQuery_active)
next
  case (CallbackResumed funcName func r)
  with assms show ?thesis by (cases r) (simp_all add: createCallbackFunction_resume_def)
next
  case (ScalarResumed funcName func r)
  with assms show ?thesis by (cases r) (simp_all add: createScalarFunction_resume_def)
next
  case (DestroyResumed r)
  with assms show ?thesis by (cases r) (simp_all add: destroy_resume_def)
qed

lemma reachable_envelopes:
  "reachable s \<Longrightarrow> \<forall>e \<in> set (posted s). (env_queryKey e = None) = is_config (env_message e)"
proof (induction rule: reachable.induct)
  case (created path u)
  show ?case by (simp add: constructor_def postMessage_def)
next
  case (stepped s e)
  from stepped.IH stepped.hyps(2) show ?case by (rule step_envelopes)
qed

lemma step_destroyed: "isWorkerDestroyed s \<Longrightarrow> isWorkerDestroyed (step e s)"
proof (cases e)
  case (Received m)
  moreover assume "isWorkerDestroyed s"
  ultimately show ?thesis by (simp add: processMessageEvent_frame)
next
  case (Called m k)
  moreover assume "isWorkerDestroyed s"
  ultimately show ?thesis by (simp add: createQuery_destroyed)
next
  case (CallbackResumed funcName func r)
  moreover assume "isWorkerDestroyed s"
  ultimately show ?thesis by (cases r) (simp_all add: createCallbackFunction_resume_def)
next
  case (ScalarResumed funcName func r)
  moreover assume "isWorkerDestroyed s"
  ultimately show ?thesis by (cases r) (simp_all add: createScalarFunction_resume_def)
next
  case (DestroyResumed r)
  moreover assume "isWorkerDestroyed s"
  ultimately show ?thesis by (cases r) (simp_all add: destroy_resume_def)
qed

lemma steps_destroyed: "isWorkerDestroyed s \<Longrightarrow> isWorkerDestroyed (steps es s)"
  by (induction es arbitrary: s) (simp_all add: step_destroyed)

lemma steps_append: "steps (es @ es') s = steps es' (steps es s)"
  by (induction es arbitrary: s) simp_all

lemma reachable_steps: "reachable s \<Longrightarrow> \<forall>e \<in> set es. possible e \<Longrightarrow> reachable (steps es s)"
  by (induction es arbitrary: s) (simp_all add: reachable.stepped)

subsection \<open>Waiting for a reply\<close>

lemma await_settled: "settled p (promise_store s) = Some r \<Longrightarrow> await p es s = (Some r, s)"
  by (cases es) simp_all

lemma pending_not_settled:
  assumes "registry_wf s" and "queriesInProgress s k = Some (resolve_promise p, reject_promise p)"
  shows "settled p (promise_store s) = None"
  using registry_wf_entry [OF assms] by (simp add: settled_def)

lemma reply_settles:
  assumes "registry_wf s" and "listening s" and "k \<noteq> []" and "message_queryKey reply = Some k"
    and "queriesInProgress s k = Some (resolve_promise p, reject_promise p)"
  shows "settled p (promise_store (step (Received reply) s)) = Some (settlement_of reply)"
proof -
  have p: "p < length (promise_store s)" "promise_store s ! p = None"
    using registry_wf_entry [OF assms(1) assms(5)] by simp_all
  have "\<not> is_callback reply"
    using assms(4) by (cases reply) simp_all
  then have "processMessageEvent reply s =
      (None,
       s\<lparr>promise_store :=
            (case reply of
               ErrorMessage _ e \<Rightarrow> reject_promise p e (promise_store s)
             | _ \<Rightarrow> resolve_promise p reply (promise_store s)),
         queriesInProgress := (queriesInProgress s)(k := None)\<rparr>)"
    using assms(4) assms(3) assms(5) by (rule processMessageEvent_matched)
  then show ?thesis
    using assms(2) p
    by (cases reply)
      (simp_all add: resolve_promise_def reject_promise_def settle_pending settled_def)
qed

lemma quiet_step:
  assumes "queriesInProgress s k = Some c" and "\<not> concerns k e"
  shows "queriesInProgress (step e s) k = Some c \<and> listening (step e s) = listening s"
proof (cases e)
  case (Received m)
  with assms(2) have "message_queryKey m \<noteq> Some k" by simp
  then show ?thesis
    using assms(1) processMessageEvent_effect [of m s] processMessageEvent_frame [of m s]
    unfolding Received by auto
next
  case (Called m k')
  with assms show ?thesis
    by (cases "isWorkerDestroyed s") (simp_all add: createQuery_destroyed createQuery_active)
next
  case (CallbackResumed funcName func r)
  with assms show ?thesis by (cases r) (simp_all add: createCallbackFunction_resume_def)
next
  case (ScalarResumed funcName func r)
  with assms show ?thesis by (cases r) (simp_all add: createScalarFunction_resume_def)
next
  case (DestroyResumed r)
  with assms show ?thesis by (cases r) (simp_all add: destroy_resume_def)
qed

lemma await_reply:
  assumes "registry_wf s" and "listening s" and "k \<noteq> []"
    and "queriesInProgress s k = Some (resolve_promise p, reject_promise p)"
    and "\<forall>e \<in> set pre. \<not> concerns k e" and "message_queryKey reply = Some k"
  shows "await p (pre @ Received reply # post) s =
           (Some (settlement_of reply), step (Received reply) (steps pre s))"
  using assms(1,2,4,5)
proof (induction pre arbitrary: s)
  case Nil
  have "settled p (promise_store s) = None"
    using Nil.prems(1) Nil.prems(3) by (rule pending_not_settled)
  moreover have "settled p (promise_store (step (Received reply) s)) = Some (settlement_of reply)"
    using Nil.prems(1) Nil.prems(2) assms(3) assms(6) Nil.prems(3) by (rule reply_settles)
  ultimately show ?case
    by (simp add: await_settled del: step.simps)
next
  case (Cons e pre)
  have none: "settled p (promise_store s) = None"
    using Cons.prems(1) Cons.prems(3) by (rule pending_not_settled)
  have e: "\<not> concerns k e" and pre: "\<forall>e \<in> set pre. \<not> concerns k e"
    using Cons.prems(4) by simp_all
  have wf: "registry_wf (step e s)"
    using Cons.prems(1) by (rule registry_wf_step)
  have "queriesInProgress (step e s) k = Some (resolve_promise p, reject_promise p)"
    and "listening (step e s)"
    using quiet_step [OF Cons.prems(3) e] Cons.prems(2) by simp_all
  with wf pre
  have "await p (pre @ Received reply # post) (step e s) =
          (Some (settlement_of reply), step (Received reply) (steps pre (step e s)))"
    by (intro Cons.IH)
  with none show ?case by simp
qed

lemma awaiting_reply:
  fixes s :: "('v, 'i, 'u) SQLocal"
  assumes "reachable s" and "\<not> isWorkerDestroyed s" and "k \<noteq> []"
    and "\<forall>e \<in> set pre. \<not> concerns k e" and "message_queryKey reply = Some k"
  shows "awaiting (createQuery m k s) (pre @ Received reply # post) resume =
           (case resume (settlement_of reply)
                   (step (Received reply) (steps pre (snd (createQuery m k s)))) of
              (result, s') \<Rightarrow> (Some result, s'))"
proof -
  let ?p = "length (promise_store s)"
  let ?s1 = "snd (createQuery m k s)"
  have call: "createQuery m k s = (Inr ?p, ?s1)"
    using assms(2) by (simp add: createQuery_active)
  have "registry_wf s" using assms(1) by (rule reachable_registry_wf)
  then have wf: "registry_wf ?s1" by (rule registry_wf_createQuery)
  have l: "listening ?s1"
    using reachable_listening [OF assms(1)] assms(2) by (simp add: createQuery_active)
  have q: "queriesInProgress ?s1 k = Some (resolve_promise ?p, reject_promise ?p)"
    using assms(2) by (simp add: createQuery_active)
  have "await ?p (pre @ Received reply # post) ?s1 =
          (Some (settlement_of reply), step (Received reply) (steps pre ?s1))"
    using wf l assms(3) q assms(4) assms(5) by (rule await_reply)
  then show ?thesis
    by (subst call) (simp add: awaiting_def del: step.simps)
qed

lemma await_pending:
  assumes "registry_wf s"
    and "queriesInProgress s k = Some (resolve_promise p, reject_promise p)"
    and "\<forall>e \<in> set es. \<not> concerns k e"
  shows "await p es s = (None, steps es s)"
  using assms
proof (induction es arbitrary: s)
  case Nil
  then show ?case by (simp add: pending_not_settled)
next
  case (Cons e es)
  have none: "settled p (promise_store s) = None"
    using Cons.prems(1) Cons.prems(2) by (rule pending_not_settled)
  have "registry_wf (step e s)"
    using Cons.prems(1) by (rule registry_wf_step)
  moreover have "queriesInProgress (step e s) k = Some (resolve_promise p, reject_promise p)"
    using quiet_step [OF Cons.prems(2), of e] Cons.prems(3) by simp
  moreover have "\<forall>e \<in> set es. \<not> concerns k e"
    using Cons.prems(3) by simp
  ultimately have "await p es (step e s) = (None, steps es (step e s))"
    by (rule Cons.IH)
  with none show ?case by simp
qed

lemma awaiting_pending:
  fixes s :: "('v, 'i, 'u) SQLocal"
  assumes "reachable s" and "\<not> isWorkerDestroyed s"
    and "\<forall>e \<in> set es. \<not> concerns k e"
  shows "awaiting (createQuery m k s) es resume = (None, steps es (snd (createQuery m k s)))"
proof -
  let ?p = "length (promise_store s)"
  let ?s1 = "snd (createQuery m k s)"
  have call: "createQuery m k s = (Inr ?p, ?s1)"
    using assms(2) by (simp add: createQuery_active)
  have "registry_wf s" using assms(1) by (rule reachable_registry_wf)
  then have wf: "registry_wf ?s1" by (rule registry_wf_createQuery)
  have q: "queriesInProgress ?s1 k = Some (resolve_promise ?p, reject_promise ?p)"
    using assms(2) by (simp add: createQuery_active)
  have "await ?p es ?s1 = (None, steps es ?s1)"
    using wf q assms(3) by (rule await_pending)
  then show ?thesis
    by (subst call) (simp add: awaiting_def)
qed

lemma awaiting_destroyed:
  "isWorkerDestroyed s \<Longrightarrow>
   awaiting (createQuery m k s) es resume = (Some (Inl (Error destroyed_text)), s)"
  by (simp add: awaiting_def createQuery_destroyed)

lemma step_userCallbacks:
  "userCallbacks s = userCallbacks t \<Longrightarrow> userCallbacks (step e s) = userCallbacks (step e t)"
proof (cases e)
  case (Received m)
  moreover assume "userCallbacks s = userCallbacks t"
  ultimately show ?thesis by (simp add: processMessageEvent_frame)
next
  case (Called m k)
  moreover assume "userCallbacks s = userCallbacks t"
  ultimately show ?thesis
    by (cases "isWorkerDestroyed s"; cases "isWorkerDestroyed t")
      (simp_all add: createQuery_destroyed createQuery_active)
next
  case (CallbackResumed funcName func r)
  moreover assume "userCallbacks s = userCallbacks t"
  ultimately show ?thesis by (cases r) (simp_all add: createCallbackFunction_resume_def)
next
  case (ScalarResumed funcName func r)
  moreover assume "userCallbacks s = userCallbacks t"
  ultimately show ?thesis by (cases r) (simp_all add: createScalarFunction_resume_def)
next
  case (DestroyResumed r)
  moreover assume "userCallbacks s = userCallbacks t"
  ultimately show ?thesis by (cases r) (simp_all add: destroy_resume_def)
qed

lemma steps_userCallbacks:
  "userCallbacks s = userCallbacks t \<Longrightarrow> userCallbacks (steps es s) = userCallbacks (steps es t)"
proof (induction es arbitrary: s t)
  case Nil
  then show ?case by simp
next
  case (Cons e es)
  from Cons.prems have "userCallbacks (step e s) = userCallbacks (step e t)"
    by (rule step_userCallbacks)
  then have "userCallbacks (steps es (step e s)) = userCallbacks (steps es (step e t))"
    by (rule Cons.IH)
  then show ?case by simp
qed

lemma createQuery_userCallbacks: "userCallbacks (snd (createQuery m k s)) = userCallbacks s"
  by (cases "isWorkerDestroyed s") (simp_all add: createQuery_destroyed createQuery_active)

subsection \<open>The example states, evaluated\<close>

lemma two_pending_reachable: "reachable two_pending"
  unfolding two_pending_def
  by (rule reachable_steps [OF reachable.created]) simp

lemma two_pending_eq:
  "two_pending =
     \<lparr>databasePath = ''db.sqlite3'', isWorkerDestroyed = False, userCallbacks = Map.empty,
      queriesInProgress =
        [''k1'' \<mapsto> (resolve_promise 0, reject_promise 0),
         ''k2'' \<mapsto> (resolve_promise (Suc 0), reject_promise (Suc 0))],
      proxy = Map.empty,
      posted =
        [\<lparr>env_message = ConfigMessage ''databasePath'' ''db.sqlite3'', env_queryKey = None,
          env_transfer = []\<rparr>,
         \<lparr>env_message = QueryMessage ''SELECT 1'' [] ''all'', env_queryKey = Some ''k1'',
          env_transfer = []\<rparr>,
         \<lparr>env_message = QueryMessage ''SELECT 2'' [] ''all'', env_queryKey = Some ''k2'',
          env_transfer = []\<rparr>],
      listening = True, terminated = False, promise_store = [None, None], world = ()\<rparr>"
  by (simp add: two_pending_def createQuery_def constructor_def postMessage_def Let_def)

lemma constructor_reachable: "reachable (constructor path u)"
  by (rule reachable.created)

lemma constructor_active: "\<not> isWorkerDestroyed (constructor path u)"
  by (simp add: constructor_def postMessage_def)

lemma destroy_example:
  "destroy ''k1'' [Received (SuccessMessage (Some ''k1''))]
     (constructor ''db.sqlite3'' () :: (nat, nat, unit) SQLocal) =
     (Some (Inr ()),
      \<lparr>databasePath = ''db.sqlite3'', isWorkerDestroyed = True, userCallbacks = Map.empty,
       queriesInProgress = Map.empty, proxy = Map.empty,
       posted =
         [\<lparr>env_message = ConfigMessage ''databasePath'' ''db.sqlite3'', env_queryKey = None,
           env_transfer = []\<rparr>,
          \<lparr>env_message = DestroyMessage, env_queryKey = Some ''k1'', env_transfer = []\<rparr>],
       listening = False, terminated = True,
       promise_store = [Some (Fulfilled (SuccessMessage (Some ''k1'')))], world = ()\<rparr>)"
  by (simp add: destroy_def awaiting_def destroy_resume_def processMessageEvent_def
      lookup_pending_def createQuery_def constructor_def postMessage_def Let_def
      resolve_promise_def settle_def settled_def)


lemma with_callback_eq:
  "with_callback =
     \<lparr>databasePath = ''db.sqlite3'', isWorkerDestroyed = False,
      userCallbacks = [''notify'' \<mapsto> notify],
      queriesInProgress = Map.empty, proxy = Map.empty,
      posted =
        [\<lparr>env_message = ConfigMessage ''databasePath'' ''db.sqlite3'', env_queryKey = None,
          env_transfer = []\<rparr>,
         \<lparr>env_message = FunctionMessage ''notify'' Callback, env_queryKey = Some ''k1'',
          env_transfer = []\<rparr>],
      listening = True, terminated = False,
      promise_store = [Some (Fulfilled (SuccessMessage (Some ''k1'')))], world = []\<rparr>"
  by (simp add: with_callback_def createCallbackFunction_def awaiting_def
      createCallbackFunction_resume_def processMessageEvent_def
      lookup_pending_def createQuery_def constructor_def postMessage_def Let_def
      resolve_promise_def settle_def settled_def)

subsection \<open>Correlated replies\<close>

text \<open>
  C1. In every state of a client, an inbound \<open>success\<close>, \<open>data\<close>, \<open>error\<close> or
  \<open>info\<close> message whose key has an entry in \<open>queriesInProgress\<close> makes the handler call
  one continuation of that entry, \<open>reject\<close> with the carried error for an \<open>error\<close>
  message and \<open>resolve\<close> with the message otherwise, and delete that entry. Nothing is
  thrown and the state changes nowhere else: every other entry stays as it was, whatever
  was received before.
\<close>

theorem settles_own_entry:
  assumes "reachable s" and "\<not> is_callback m" and "message_queryKey m = Some k"
    and "queriesInProgress s k = Some (res, rej)"
  shows "processMessageEvent m s =
           (None,
            s\<lparr>promise_store :=
                 (case m of
                    ErrorMessage _ e \<Rightarrow> rej e (promise_store s)
                  | _ \<Rightarrow> res m (promise_store s)),
              queriesInProgress := (queriesInProgress s)(k := None)\<rparr>)"
proof -
  have "queriesInProgress s [] = None"
    using assms(1) by (rule reachable_truthy_keys)
  with assms(4) have "k \<noteq> []" by auto
  then show ?thesis
    by (rule processMessageEvent_matched [OF assms(2) assms(3) _ assms(4)])
qed

text \<open>
  Two requests are in flight and the reply to the second arrives first: its promise is
  fulfilled with the reply, the first request stays pending.
\<close>

theorem settles_own_entry_witness:
  "reachable two_pending \<and>
   \<not> is_callback (DataMessage (Some ''k2'') [\<lparr>rows = [7], columns = [''n'']\<rparr>] :: (nat, nat) OutputMessage) \<and>
   message_queryKey (DataMessage (Some ''k2'') [\<lparr>rows = [7], columns = [''n'']\<rparr>] :: (nat, nat) OutputMessage) =
     Some ''k2'' \<and>
   queriesInProgress two_pending ''k2'' = Some (resolve_promise (Suc 0), reject_promise (Suc 0)) \<and>
   processMessageEvent (DataMessage (Some ''k2'') [\<lparr>rows = [7], columns = [''n'']\<rparr>]) two_pending =
     (None,
      two_pending
        \<lparr>promise_store :=
           [None, Some (Fulfilled (DataMessage (Some ''k2'') [\<lparr>rows = [7], columns = [''n'']\<rparr>]))],
         queriesInProgress := [''k1'' \<mapsto> (resolve_promise 0, reject_promise 0)]\<rparr>)"
proof -
  let ?m = "DataMessage (Some ''k2'') [\<lparr>rows = [7], columns = [''n'']\<rparr>] :: (nat, nat) OutputMessage"
  have q: "queriesInProgress two_pending ''k2'' = Some (resolve_promise (Suc 0), reject_promise (Suc 0))"
    by (simp add: two_pending_eq)
  have "processMessageEvent ?m two_pending =
          (None,
           two_pending
             \<lparr>promise_store := resolve_promise (Suc 0) ?m (promise_store two_pending),
              queriesInProgress := (queriesInProgress two_pending)(''k2'' := None)\<rparr>)"
    using settles_own_entry [OF two_pending_reachable _ _ q, of ?m] by simp
  moreover have "resolve_promise (Suc 0) ?m (promise_store two_pending) = [None, Some (Fulfilled ?m)]"
    by (simp add: two_pending_eq resolve_promise_def settle_def)
  moreover have "(queriesInProgress two_pending)(''k2'' := None) =
      [''k1'' \<mapsto> (resolve_promise 0, reject_promise 0)]"
    by (simp add: two_pending_eq)
  ultimately show ?thesis
    using two_pending_reachable q by simp
qed

subsection \<open>After destruction\<close>








subsection \<open>Batch execution\<close>

lemma array_set_at_most_length:
  "i \<le> length d \<Longrightarrow> array_set d i x = take i d @ Some x # drop (Suc i) d"
  by (cases "i < length d") (simp_all add: array_set_def upd_conv_take_nth_drop)

lemma forEach_from_array_set:
  "i \<le> length d \<Longrightarrow>
   forEach_from i results (\<lambda>result resultIndex d. array_set d resultIndex result) d =
     take i d @ map Some results @ drop (i + length results) d"
proof (induction results arbitrary: i d)
  case Nil
  then show ?case by simp
next
  case (Cons x xs)
  let ?d = "array_set d i x"
  have d: "?d = take i d @ Some x # drop (Suc i) d"
    using Cons.prems by (rule array_set_at_most_length)
  have len: "Suc i \<le> length ?d"
    using Cons.prems by (simp add: d)
  have "forEach_from i (x # xs) (\<lambda>result resultIndex d. array_set d resultIndex result) d =
        forEach_from (Suc i) xs (\<lambda>result resultIndex d. array_set d resultIndex result) ?d"
    by simp
  also have "\<dots> = take (Suc i) ?d @ map Some xs @ drop (Suc i + length xs) ?d"
    using len by (rule Cons.IH)
  also have "take (Suc i) ?d = take i d @ [Some x]"
    using Cons.prems by (simp add: d)
  also have "drop (Suc i + length xs) ?d = drop (i + length (x # xs)) d"
    using Cons.prems by (simp add: d add.commute)
  finally show ?case by simp
qed

lemma execBatch_resume_data:
  "execBatch_resume statements (Fulfilled (DataMessage key results)) =
     Inr (map Some results @
          replicate (length statements - length results) (Some \<lparr>rows = [], columns = []\<rparr>))"
  by (simp add: execBatch_resume_def forEach_def forEach_from_array_set new_Array_def array_fill_def)

lemma execBatch_resume_other:
  "\<not> (\<exists>key results. m = DataMessage key results) \<Longrightarrow>
   execBatch_resume statements (Fulfilled m) =
     Inr (replicate (length statements) (Some \<lparr>rows = [], columns = []\<rparr>))"
  by (cases m) (simp_all add: execBatch_resume_def new_Array_def array_fill_def)

lemma execBatch_resume_shape:
  "\<exists>data. execBatch_resume statements (Fulfilled m) = Inr data \<and>
     length data =
       (case m of
          DataMessage _ results \<Rightarrow> max (length statements) (length results)
        | _ \<Rightarrow> length statements) \<and>
     (\<forall>i < length data.
        data ! i =
          Some (case m of
                  DataMessage _ results \<Rightarrow>
                    if i < length results then results ! i else \<lparr>rows = [], columns = []\<rparr>
                | _ \<Rightarrow> \<lparr>rows = [], columns = []\<rparr>))"
proof (cases "\<exists>key results. m = DataMessage key results")
  case True
  then obtain key results where m: "m = DataMessage key results" by blast
  show ?thesis
    unfolding m execBatch_resume_data
    by (auto simp add: nth_append)
next
  case False
  then show ?thesis
    by (cases m) (simp_all add: execBatch_resume_other)
qed

lemma execBatch_reply:
  assumes "reachable s" and "\<not> isWorkerDestroyed s" and "k \<noteq> []"
    and "\<forall>e \<in> set pre. \<not> concerns k e" and "message_queryKey reply = Some k"
  shows "fst (execBatch statements k (pre @ Received reply # post) s) =
           Some (execBatch_resume statements (settlement_of reply))"
  unfolding execBatch_def awaiting_reply [OF assms] by simp

lemma settlement_of_not_error: "\<not> is_error m \<Longrightarrow> settlement_of m = Fulfilled m"
  by (cases m) simp_all

text \<open>
  C3, as the code has it. A batch of \<open>length statements\<close> statements whose reply is not
  an error returns an array without empty slots. Its length is the larger of the number
  of statements and the number of result sets of a \<open>data\<close> reply (the number of
  statements for another reply), so exactly the number of statements whenever the reply
  has no more result sets than that. Position \<open>i\<close> holds the reply's \<open>i\<close>-th result set
  when it has one and the empty result set otherwise. The reply may arrive after any
  events that do not concern the request's key.
\<close>

theorem execBatch_result:
  assumes "reachable s" and "\<not> isWorkerDestroyed s" and "k \<noteq> []"
    and "\<forall>e \<in> set pre. \<not> concerns k e" and "message_queryKey reply = Some k"
    and "\<not> is_error reply"
  shows "\<exists>data. fst (execBatch statements k (pre @ Received reply # post) s) = Some (Inr data) \<and>
     length data =
       (case reply of
          DataMessage _ results \<Rightarrow> max (length statements) (length results)
        | _ \<Rightarrow> length statements) \<and>
     (\<forall>i < length data.
        data ! i =
          Some (case reply of
                  DataMessage _ results \<Rightarrow>
                    if i < length results then results ! i else \<lparr>rows = [], columns = []\<rparr>
                | _ \<Rightarrow> \<lparr>rows = [], columns = []\<rparr>))"
  unfolding execBatch_reply [OF assms(1-5)] settlement_of_not_error [OF assms(6)]
  using execBatch_resume_shape [of statements reply] by simp

theorem execBatch_result_witness:
  "\<exists>data.
     fst (execBatch
       [\<lparr>statement_sql = ''INSERT 1'', statement_params = []\<rparr>,
        \<lparr>statement_sql = ''INSERT 2'', statement_params = []\<rparr>,
        \<lparr>statement_sql = ''INSERT 3'', statement_params = []\<rparr>] ''k3''
       [Received (SuccessMessage (Some ''k1'')),
        Received (DataMessage (Some ''k3'') [\<lparr>rows = [1], columns = [''a'']\<rparr>])]
       two_pending) = Some (Inr data) \<and>
     length data = 3 \<and>
     data ! 0 = Some \<lparr>rows = [1], columns = [''a'']\<rparr> \<and>
     data ! 1 = Some \<lparr>rows = [], columns = []\<rparr> \<and>
     data ! 2 = Some \<lparr>rows = [], columns = []\<rparr>"
proof -
  let ?statements = "[\<lparr>statement_sql = ''INSERT 1'', statement_params = [] :: nat list\<rparr>,
        \<lparr>statement_sql = ''INSERT 2'', statement_params = []\<rparr>,
        \<lparr>statement_sql = ''INSERT 3'', statement_params = []\<rparr>]"
  let ?reply = "DataMessage (Some ''k3'') [\<lparr>rows = [1::nat], columns = [''a'']\<rparr>] :: (nat, nat) OutputMessage"
  have a: "\<not> isWorkerDestroyed two_pending"
    by (simp add: two_pending_eq)
  have b: "\<forall>e \<in> set [Received (SuccessMessage (Some ''k1'')) :: (nat, nat, unit) Event].
             \<not> concerns ''k3'' e"
    by simp
  obtain data where
    d: "fst (execBatch ?statements ''k3''
          ([Received (SuccessMessage (Some ''k1''))] @ Received ?reply # []) two_pending) =
        Some (Inr data)"
    and l: "length data = 3"
    and n: "\<forall>i < length data.
        data ! i =
          Some (if i < length [\<lparr>rows = [1::nat], columns = [''a'']\<rparr>]
                then [\<lparr>rows = [1], columns = [''a'']\<rparr>] ! i
                else \<lparr>rows = [], columns = []\<rparr>)"
    using execBatch_result [OF two_pending_reachable a _ b, of ?reply ?statements "[]"]
    by auto
  have "data ! 0 = Some \<lparr>rows = [1], columns = [''a'']\<rparr>"
    and "data ! 1 = Some \<lparr>rows = [], columns = []\<rparr>"
    and "data ! 2 = Some \<lparr>rows = [], columns = []\<rparr>"
    using n l by simp_all
  with d l show ?thesis by auto
qed

text \<open>
  C3 as it is stated fails for a reply with more result sets than statements: one
  statement and a reply of two result sets give an array of length two.
\<close>

theorem execBatch_longer_reply:
  "fst (execBatch [\<lparr>statement_sql = ''SELECT 1'', statement_params = []\<rparr>] ''k1''
     [Received (DataMessage (Some ''k1'')
        [\<lparr>rows = [1], columns = [''a'']\<rparr>, \<lparr>rows = [2], columns = [''b'']\<rparr>])]
     (constructor ''db.sqlite3'' () :: (nat, nat, unit) SQLocal)) =
     Some (Inr [Some \<lparr>rows = [1], columns = [''a'']\<rparr>, Some \<lparr>rows = [2], columns = [''b'']\<rparr>]) \<and>
   length [Some \<lparr>rows = [1::nat], columns = [''a'']\<rparr>, Some \<lparr>rows = [2], columns = [''b'']\<rparr>] \<noteq>
     length [\<lparr>statement_sql = ''SELECT 1'', statement_params = [] :: nat list\<rparr>]"
  by (simp add: execBatch_def awaiting_def execBatch_resume_def forEach_def new_Array_def
      array_fill_def array_set_def processMessageEvent_def lookup_pending_def createQuery_def
      constructor_def postMessage_def Let_def resolve_promise_def settle_def settled_def)

subsection \<open>Single statement execution\<close>

lemma exec_reply:
  assumes "reachable s" and "\<not> isWorkerDestroyed s" and "k \<noteq> []"
    and "\<forall>e \<in> set pre. \<not> concerns k e" and "message_queryKey reply = Some k"
  shows "fst (exec text ps method k (pre @ Received reply # post) s) =
           Some (exec_resume (settlement_of reply))"
  unfolding exec_def awaiting_reply [OF assms] by simp

text \<open>
  C5, as the code has it. A call of \<open>exec\<close> on an active client, whose reply arrives
  after any events that do not concern its key, returns the rows and columns of the first
  result set of a \<open>data\<close> reply that has at least one result set, and the empty result
  set for a \<open>success\<close> or an \<open>info\<close> reply; both are normal returns. For a \<open>data\<close>
  reply without result sets it returns nothing: the call is rejected with a TypeError.
\<close>

theorem exec_result:
  assumes "reachable s" and "\<not> isWorkerDestroyed s" and "k \<noteq> []"
    and "\<forall>e \<in> set pre. \<not> concerns k e"
  shows "fst (exec text ps method k
                (pre @ Received (DataMessage (Some k) (first # others)) # post) s) =
           Some (Inr \<lparr>rows = rows first, columns = columns first\<rparr>) \<and>
         fst (exec text ps method k (pre @ Received (SuccessMessage (Some k)) # post) s) =
           Some (Inr \<lparr>rows = [], columns = []\<rparr>) \<and>
         fst (exec text ps method k (pre @ Received (InfoMessage (Some k) info) # post) s) =
           Some (Inr \<lparr>rows = [], columns = []\<rparr>) \<and>
         fst (exec text ps method k (pre @ Received (DataMessage (Some k) []) # post) s) =
           Some (Inl TypeError)"
  by (simp add: exec_reply [OF assms] exec_resume_def)

theorem exec_result_witness:
  "fst (exec ''SELECT 3'' [] ''all'' ''k3''
          [Received (DataMessage (Some ''k2'') []),
           Received (DataMessage (Some ''k3'') [\<lparr>rows = [5, 6], columns = [''n'']\<rparr>])]
          two_pending) =
     Some (Inr \<lparr>rows = [5, 6], columns = [''n'']\<rparr>) \<and>
   fst (exec ''DELETE'' [] ''all'' ''k3'' [Received (SuccessMessage (Some ''k3''))] two_pending) =
     Some (Inr \<lparr>rows = [], columns = []\<rparr>)"
proof -
  have a: "\<not> isWorkerDestroyed two_pending"
    by (simp add: two_pending_eq)
  have b: "\<forall>e \<in> set [Received (DataMessage (Some ''k2'') []) :: (nat, nat, unit) Event].
             \<not> concerns ''k3'' e"
    by simp
  have c: "\<forall>e \<in> set ([] :: (nat, nat, unit) Event list). \<not> concerns ''k3'' e"
    by simp
  show ?thesis
    using exec_result [OF two_pending_reachable a _ b,
        of "''SELECT 3''" "[]" "''all''" "\<lparr>rows = [5, 6], columns = [''n'']\<rparr>" "[]" "[]"]
      exec_result [OF two_pending_reachable a _ c, of "''DELETE''" "[]" "''all''" _ _ "[]"]
    by simp
qed

text \<open>
  C5 as it is stated fails for a \<open>data\<close> reply without result sets: there is no first
  result set to return, and the call is rejected instead.
\<close>

theorem exec_data_without_result_sets:
  "fst (exec ''SELECT 1'' [] ''all'' ''k1'' [Received (DataMessage (Some ''k1'') [])]
          (constructor ''db.sqlite3'' () :: (nat, nat, unit) SQLocal)) = Some (Inl TypeError) \<and>
   \<not> (\<exists>data. fst (exec ''SELECT 1'' [] ''all'' ''k1'' [Received (DataMessage (Some ''k1'') [])]
                   (constructor ''db.sqlite3'' () :: (nat, nat, unit) SQLocal)) = Some (Inr data))"
  by (simp add: exec_def awaiting_def exec_resume_def processMessageEvent_def lookup_pending_def
      createQuery_def constructor_def postMessage_def Let_def resolve_promise_def settle_def
      settled_def)

text \<open>
  C10. \<open>exec\<close> reads the first result set of a \<open>data\<close> reply unguarded: for a \<open>data\<close>
  reply without result sets it is rejected with a TypeError instead of returning the
  empty result set, and it returns a result for a \<open>data\<close> reply exactly when the reply
  has at least one result set.
\<close>

theorem exec_empty_data:
  assumes "reachable s" and "\<not> isWorkerDestroyed s" and "k \<noteq> []"
    and "\<forall>e \<in> set pre. \<not> concerns k e"
  shows "fst (exec text ps method k (pre @ Received (DataMessage (Some k) []) # post) s) =
           Some (Inl TypeError) \<and>
         (\<exists>data. fst (exec text ps method k
                         (pre @ Received (DataMessage (Some k) results) # post) s) =
                   Some (Inr data)) = (results \<noteq> [])"
  by (cases results) (simp_all add: exec_reply [OF assms] exec_resume_def)

theorem exec_empty_data_witness:
  "fst (exec ''SELECT 3'' [] ''all'' ''k3'' [Received (DataMessage (Some ''k3'') [])] two_pending) =
     Some (Inl TypeError)"
proof -
  have a: "\<not> isWorkerDestroyed two_pending"
    by (simp add: two_pending_eq)
  have c: "\<forall>e \<in> set ([] :: (nat, nat, unit) Event list). \<not> concerns ''k3'' e"
    by simp
  show ?thesis
    using exec_empty_data [OF two_pending_reachable a _ c, of "''SELECT 3''" "[]" "''all''" "[]"]
    by simp
qed

subsection \<open>Stray replies\<close>

text \<open>
  C4. A \<open>success\<close>, \<open>data\<close>, \<open>error\<close> or \<open>info\<close> message whose key has no entry in
  \<open>queriesInProgress\<close> (or that has no key) leaves the client as it is; the handler
  throws the carried error when the message is an \<open>error\<close> and throws nothing
  otherwise.
\<close>

theorem stray_reply:
  assumes "\<not> is_callback m"
    and "\<forall>k. message_queryKey m = Some k \<longrightarrow> queriesInProgress s k = None"
  shows "processMessageEvent m s = ((case m of ErrorMessage _ e \<Rightarrow> Some e | _ \<Rightarrow> None), s)"
  using assms
  by (cases m) (simp_all add: processMessageEvent_def lookup_pending_None)

theorem stray_reply_witness:
  "queriesInProgress two_pending ''k9'' = None \<and>
   processMessageEvent (ErrorMessage (Some ''k9'') (Error ''constraint failed'')) two_pending =
     (Some (Error ''constraint failed''), two_pending) \<and>
   processMessageEvent (ErrorMessage None (Error ''constraint failed'')) two_pending =
     (Some (Error ''constraint failed''), two_pending) \<and>
   processMessageEvent (DataMessage (Some ''k9'') []) two_pending = (None, two_pending) \<and>
   processMessageEvent (SuccessMessage (Some ''k9'')) two_pending = (None, two_pending) \<and>
   processMessageEvent (InfoMessage (Some ''k9'') 5) two_pending = (None, two_pending)"
proof -
  have q: "queriesInProgress two_pending ''k9'' = None"
    by (simp add: two_pending_eq)
  show ?thesis
    using q
      stray_reply [of "ErrorMessage (Some ''k9'') (Error ''constraint failed'')" two_pending]
      stray_reply [of "ErrorMessage None (Error ''constraint failed'')" two_pending]
      stray_reply [of "DataMessage (Some ''k9'') []" two_pending]
      stray_reply [of "SuccessMessage (Some ''k9'')" two_pending]
      stray_reply [of "InfoMessage (Some ''k9'') 5" two_pending]
    by simp
qed

subsection \<open>Registration of a callback function\<close>

lemma createCallbackFunction_reply:
  assumes "reachable s" and "\<not> isWorkerDestroyed s" and "k \<noteq> []"
    and "\<forall>e \<in> set pre. \<not> concerns k e" and "message_queryKey reply = Some k"
  shows "createCallbackFunction funcName func k (pre @ Received reply # post) s =
           (case createCallbackFunction_resume funcName func (settlement_of reply)
                   (step (Received reply)
                      (steps pre (snd (createQuery (FunctionMessage funcName Callback) k s)))) of
              (result, s') \<Rightarrow> (Some result, s'))"
  unfolding createCallbackFunction_def by (rule awaiting_reply [OF assms])

text \<open>
  C6. A call of \<open>createCallbackFunction\<close> on an active client adds nothing to
  \<open>userCallbacks\<close> while it waits: the map is what the other events make of it. When the
  reply arrives, the call is rejected with the carried error and the map is still what
  the other events made of it if the reply is an \<open>error\<close>; otherwise the call is
  fulfilled and the map has gained the entry for \<open>funcName\<close>. On a destroyed client the
  call is rejected at once and the client stays as it is.
\<close>

theorem callback_registration:
  assumes "reachable s" and "\<not> isWorkerDestroyed s" and "k \<noteq> []"
    and "\<forall>e \<in> set pre. \<not> concerns k e" and "message_queryKey reply = Some k"
  shows "createCallbackFunction funcName func k pre s =
           (None, steps pre (snd (createQuery (FunctionMessage funcName Callback) k s))) \<and>
         userCallbacks (snd (createCallbackFunction funcName func k pre s)) =
           userCallbacks (steps pre s) \<and>
         fst (createCallbackFunction funcName func k (pre @ Received reply # post) s) =
           Some (case reply of ErrorMessage _ e \<Rightarrow> Inl e | _ \<Rightarrow> Inr ()) \<and>
         userCallbacks (snd (createCallbackFunction funcName func k (pre @ Received reply # post) s)) =
           (case reply of
              ErrorMessage _ e \<Rightarrow> userCallbacks (steps pre s)
            | _ \<Rightarrow> (userCallbacks (steps pre s))(funcName \<mapsto> func)) \<and>
         (isWorkerDestroyed t \<longrightarrow>
            createCallbackFunction funcName func k es t = (Some (Inl (Error destroyed_text)), t))"
proof -
  let ?s1 = "snd (createQuery (FunctionMessage funcName Callback) k s)"
  have same: "userCallbacks (steps pre ?s1) = userCallbacks (steps pre s)"
    by (rule steps_userCallbacks) (rule createQuery_userCallbacks)
  have waiting: "createCallbackFunction funcName func k pre s = (None, steps pre ?s1)"
    unfolding createCallbackFunction_def
    using assms(1) assms(2) assms(4) by (rule awaiting_pending)
  have received: "userCallbacks (step (Received reply) (steps pre ?s1)) = userCallbacks (steps pre s)"
    using same by (simp add: processMessageEvent_frame)
  have "fst (createCallbackFunction funcName func k (pre @ Received reply # post) s) =
           Some (case reply of ErrorMessage _ e \<Rightarrow> Inl e | _ \<Rightarrow> Inr ())"
    and "userCallbacks (snd (createCallbackFunction funcName func k (pre @ Received reply # post) s)) =
           (case reply of
              ErrorMessage _ e \<Rightarrow> userCallbacks (steps pre s)
            | _ \<Rightarrow> (userCallbacks (steps pre s))(funcName \<mapsto> func))"
    unfolding createCallbackFunction_reply [OF assms]
    using received
    by (cases reply; simp add: createCallbackFunction_resume_def del: step.simps)+
  moreover have "isWorkerDestroyed t \<longrightarrow>
            createCallbackFunction funcName func k es t = (Some (Inl (Error destroyed_text)), t)"
    by (simp add: createCallbackFunction_def awaiting_destroyed)
  ultimately show ?thesis
    using waiting same by simp
qed

theorem callback_registration_witness:
  "createCallbackFunction ''notify'' notify ''k1'' []
     (constructor ''db.sqlite3'' [] :: (nat, nat, nat list) SQLocal) =
     (None, snd (createQuery (FunctionMessage ''notify'' Callback) ''k1'' (constructor ''db.sqlite3'' []))) \<and>
   userCallbacks (snd (createCallbackFunction ''notify'' notify ''k1'' []
     (constructor ''db.sqlite3'' [] :: (nat, nat, nat list) SQLocal))) = Map.empty \<and>
   fst (createCallbackFunction ''notify'' notify ''k1''
          [Received (ErrorMessage (Some ''k1'') (Error ''no such function''))]
          (constructor ''db.sqlite3'' [] :: (nat, nat, nat list) SQLocal)) =
     Some (Inl (Error ''no such function'')) \<and>
   userCallbacks (snd (createCallbackFunction ''notify'' notify ''k1''
          [Received (ErrorMessage (Some ''k1'') (Error ''no such function''))]
          (constructor ''db.sqlite3'' [] :: (nat, nat, nat list) SQLocal))) = Map.empty \<and>
   fst (createCallbackFunction ''notify'' notify ''k1'' [Received (SuccessMessage (Some ''k1''))]
          (constructor ''db.sqlite3'' [] :: (nat, nat, nat list) SQLocal)) = Some (Inr ()) \<and>
   userCallbacks (snd (createCallbackFunction ''notify'' notify ''k1''
          [Received (SuccessMessage (Some ''k1''))]
          (constructor ''db.sqlite3'' [] :: (nat, nat, nat list) SQLocal))) =
     [''notify'' \<mapsto> notify]"
proof -
  let ?c = "constructor ''db.sqlite3'' [] :: (nat, nat, nat list) SQLocal"
  have q: "\<forall>e \<in> set ([] :: (nat, nat, nat list) Event list). \<not> concerns ''k1'' e"
    by simp
  have u: "userCallbacks ?c = Map.empty"
    by (simp add: constructor_def postMessage_def)
  have r: "reachable ?c"
    by (rule reachable.created)
  have a: "\<not> isWorkerDestroyed ?c"
    by (rule constructor_active)
  have k: "''k1'' \<noteq> []"
    by simp
  have me: "message_queryKey (ErrorMessage (Some ''k1'') (Error ''no such function'') :: (nat, nat) OutputMessage) =
      Some ''k1''"
    and ms: "message_queryKey (SuccessMessage (Some ''k1'') :: (nat, nat) OutputMessage) = Some ''k1''"
    by simp_all
  note rejected = callback_registration [OF r a k q me,
      where funcName = "''notify''" and func = notify and post = "[]"
        and t = "constructor ''db.sqlite3'' []" and es = "[]",
      unfolded steps.simps append.simps OutputMessage.case u]
  note accepted = callback_registration [OF r a k q ms,
      where funcName = "''notify''" and func = notify and post = "[]"
        and t = "constructor ''db.sqlite3'' []" and es = "[]",
      unfolded steps.simps append.simps OutputMessage.case u]
  from rejected accepted show ?thesis
    by blast
qed

subsection \<open>Which requests carry a key\<close>

lemma destroy_no_events:
  "\<not> isWorkerDestroyed s \<Longrightarrow>
   destroy k [] s = (None, snd (createQuery DestroyMessage k s))"
  by (simp add: destroy_def awaiting_def createQuery_active settled_def)

text \<open>
  C7, as the code has it. In every state of a client, a message posted to the worker
  carries a \<open>queryKey\<close> exactly when it is not a \<open>config\<close> message; \<open>createQuery\<close> on
  an active client posts its request with the key of that call, and so does \<open>destroy\<close>.
\<close>

theorem keyed_unless_config:
  "(reachable s \<longrightarrow>
      (\<forall>e \<in> set (posted s). (env_queryKey e \<noteq> None) = (\<not> is_config (env_message e)))) \<and>
   (\<not> isWorkerDestroyed s \<longrightarrow>
      (\<exists>transfer.
         posted (snd (createQuery m k s)) =
           posted s @ [\<lparr>env_message = m, env_queryKey = Some k, env_transfer = transfer\<rparr>]) \<and>
      posted (snd (destroy k [] s)) =
        posted s @ [\<lparr>env_message = DestroyMessage, env_queryKey = Some k, env_transfer = []\<rparr>])"
proof -
  have "reachable s \<longrightarrow>
      (\<forall>e \<in> set (posted s). (env_queryKey e \<noteq> None) = (\<not> is_config (env_message e)))"
    using reachable_envelopes [of s] by simp
  moreover have "\<not> isWorkerDestroyed s \<longrightarrow>
      (\<exists>transfer.
         posted (snd (createQuery m k s)) =
           posted s @ [\<lparr>env_message = m, env_queryKey = Some k, env_transfer = transfer\<rparr>]) \<and>
      posted (snd (destroy k [] s)) =
        posted s @ [\<lparr>env_message = DestroyMessage, env_queryKey = Some k, env_transfer = []\<rparr>]"
    by (simp add: destroy_no_events createQuery_active)
  ultimately show ?thesis by (rule conjI)
qed

theorem keyed_unless_config_witness:
  "reachable two_pending \<and>
   list_all (\<lambda>e. (env_queryKey e \<noteq> None) = (\<not> is_config (env_message e))) (posted two_pending) \<and>
   length (posted two_pending) = 3 \<and>
   \<not> isWorkerDestroyed two_pending \<and>
   posted (snd (destroy ''k3'' [] two_pending)) =
     posted two_pending @
       [\<lparr>env_message = DestroyMessage, env_queryKey = Some ''k3'', env_transfer = []\<rparr>]"
proof -
  have a: "\<not> isWorkerDestroyed two_pending" and b: "length (posted two_pending) = 3"
    by (simp_all add: two_pending_eq)
  have c: "\<forall>e \<in> set (posted two_pending). (env_queryKey e \<noteq> None) = (\<not> is_config (env_message e))"
    using two_pending_reachable keyed_unless_config [of two_pending DestroyMessage "''k3''"] by blast
  have d: "posted (snd (destroy ''k3'' [] two_pending)) =
     posted two_pending @
       [\<lparr>env_message = DestroyMessage, env_queryKey = Some ''k3'', env_transfer = []\<rparr>]"
    using a keyed_unless_config [of two_pending DestroyMessage "''k3''"] by blast
  from c have "list_all (\<lambda>e. (env_queryKey e \<noteq> None) = (\<not> is_config (env_message e)))
      (posted two_pending)"
    by (simp add: list_all_iff)
  with two_pending_reachable a b d show ?thesis by blast
qed

text \<open>
  C7 as it is stated fails for \<open>destroy\<close>: its request is posted with a key.
\<close>

theorem destroy_request_is_keyed:
  "posted (snd (destroy ''k1'' [] (constructor ''db.sqlite3'' () :: (nat, nat, unit) SQLocal))) =
     [\<lparr>env_message = ConfigMessage ''databasePath'' ''db.sqlite3'', env_queryKey = None,
       env_transfer = []\<rparr>,
      \<lparr>env_message = DestroyMessage, env_queryKey = Some ''k1'', env_transfer = []\<rparr>]"
  by (simp add: destroy_def awaiting_def createQuery_def constructor_def postMessage_def Let_def
      settled_def)

subsection \<open>Callback messages\<close>

text \<open>
  C8. A \<open>callback\<close> message leaves \<open>queriesInProgress\<close> as it is, and what the handler
  does with it does not depend on \<open>queriesInProgress\<close>. With no handler under the name
  the client stays as it is and nothing is thrown. With a handler, the handler is called
  with the arguments of the message (none when the message has no argument list); the
  value it returns is dropped, a value it throws is thrown on, and the application's state
  is what the handler left.
\<close>

theorem callback_message:
  "queriesInProgress (snd (processMessageEvent (CallbackMessage name args) s)) = queriesInProgress s \<and>
   processMessageEvent (CallbackMessage name args) (s\<lparr>queriesInProgress := q\<rparr>) =
     (fst (processMessageEvent (CallbackMessage name args) s),
      (snd (processMessageEvent (CallbackMessage name args) s))\<lparr>queriesInProgress := q\<rparr>) \<and>
   (userCallbacks s name = None \<longrightarrow> processMessageEvent (CallbackMessage name args) s = (None, s)) \<and>
   (\<forall>userCallback. userCallbacks s name = Some userCallback \<longrightarrow>
      processMessageEvent (CallbackMessage name args) s =
        ((case fst (userCallback (case args of Some a \<Rightarrow> a | None \<Rightarrow> []) (world s)) of
            Inl e \<Rightarrow> Some e
          | Inr r \<Rightarrow> None),
         s\<lparr>world := snd (userCallback (case args of Some a \<Rightarrow> a | None \<Rightarrow> []) (world s))\<rparr>))"
  by (auto simp add: processMessageEvent_def split: option.splits prod.splits sum.splits)

theorem callback_message_witness:
  "userCallbacks with_callback ''notify'' = Some notify \<and>
   userCallbacks with_callback ''other'' = None \<and>
   processMessageEvent (CallbackMessage ''notify'' (Some [4, 5])) with_callback =
     (None, with_callback\<lparr>world := [4, 5]\<rparr>) \<and>
   processMessageEvent (CallbackMessage ''other'' (Some [4, 5])) with_callback =
     (None, with_callback)"
proof -
  have a: "userCallbacks with_callback ''notify'' = Some notify"
    and b: "userCallbacks with_callback ''other'' = None"
    and w: "world with_callback = []"
    by (simp_all add: with_callback_eq)
  show ?thesis
    using a b w
      callback_message [of "''notify''" "Some [4, 5]" with_callback]
      callback_message [of "''other''" "Some [4, 5]" with_callback]
    by (simp add: notify_def)
qed

subsection \<open>Destroying twice\<close>

lemma destroy_resolved:
  "fst (destroy k es s) = Some (Inr ()) \<Longrightarrow> isWorkerDestroyed (snd (destroy k es s))"
  by (auto simp add: destroy_def awaiting_def destroy_resume_def
      split: prod.splits sum.splits option.splits Settlement.splits)

text \<open>
  C9. Once a call of \<open>destroy\<close> has been fulfilled, the client is destroyed and stays
  so whatever happens later, and another call of \<open>destroy\<close> is rejected with the error
  that says the client has been destroyed; the client stays as it is.
\<close>

theorem second_destroy_rejects:
  assumes "fst (destroy k es s) = Some (Inr ())"
  shows "isWorkerDestroyed (steps later (snd (destroy k es s))) \<and>
         destroy k' es' (steps later (snd (destroy k es s))) =
           (Some (Inl (Error destroyed_text)), steps later (snd (destroy k es s)))"
proof -
  have "isWorkerDestroyed (snd (destroy k es s))"
    using assms by (rule destroy_resolved)
  then have "isWorkerDestroyed (steps later (snd (destroy k es s)))"
    by (rule steps_destroyed)
  then show ?thesis
    by (simp add: destroy_def awaiting_destroyed)
qed

theorem second_destroy_rejects_witness:
  "fst (destroy ''k1'' [Received (SuccessMessage (Some ''k1''))]
          (constructor ''db.sqlite3'' () :: (nat, nat, unit) SQLocal)) = Some (Inr ()) \<and>
   isWorkerDestroyed destroyed_client \<and>
   destroy ''k2'' [Received (SuccessMessage (Some ''k2''))] destroyed_client =
     (Some (Inl (Error destroyed_text)), destroyed_client)"
proof -
  have first: "fst (destroy ''k1'' [Received (SuccessMessage (Some ''k1''))]
          (constructor ''db.sqlite3'' () :: (nat, nat, unit) SQLocal)) = Some (Inr ())"
    by (simp add: destroy_example)
  show ?thesis
    using first second_destroy_rejects [OF first, of "[]" "''k2''"
        "[Received (SuccessMessage (Some ''k2''))]"]
    by (simp add: destroyed_client_def)
qed

end
